theory Spec2Isabelle
  imports Main
begin

section \<open>Data model\<close>

text \<open>
  The program computes with the C++ type \<open>int\<close> (32 bits on the platforms the project
  targets) and with \<open>std::array<int, N>\<close>. Two things the source can do have no defined
  result in C++: reading or writing \<open>memo[i]\<close> with \<open>i\<close> outside \<open>[0, N-1]\<close>, and an \<open>int\<close>
  addition whose result leaves \<open>[INT_MIN, INT_MAX]\<close>. Both are branches of the model: a
  function returns \<open>Inl OutOfBounds\<close> or \<open>Inl SignedOverflow\<close> where the source would do
  so, and \<open>Inr\<close> of its result otherwise.
\<close>

datatype error = OutOfBounds | SignedOverflow

text \<open>
  Every function of the source has several \<open>return\<close> statements. The model returns, next
  to the value, which one produced it: the cache hit (lines 35 and 60), the base case
  (lines 18, 41 and 66) or the end of the recursive branch (lines 21, 45 and 70).
\<close>

datatype exit = CacheHit | BaseCase | Recursive

definition INT_MAX :: int where
  "INT_MAX = 2147483647"

definition INT_MIN :: int where
  "INT_MIN = - 2147483648"

text \<open>\<open>a + b\<close> on two \<open>int\<close>s.\<close>

definition add_int :: "int \<Rightarrow> int \<Rightarrow> error + int" where
  "add_int a b =
     (if INT_MIN \<le> a + b \<and> a + b \<le> INT_MAX then Inr (a + b) else Inl SignedOverflow)"

text \<open>
  The cache \<open>std::array<int, N>\<close> is a list of length \<open>N\<close>. The index expression \<open>n - 1\<close>
  is an \<open>int\<close> that \<open>operator[]\<close> converts to \<open>size_t\<close>: a negative index becomes a value
  above every possible \<open>N\<close>, so the valid indices are exactly \<open>0 \<le> i < N\<close>.
\<close>

type_synonym memo = "int list"

definition in_bounds :: "int \<Rightarrow> memo \<Rightarrow> bool" where
  "in_bounds i memo = (0 \<le> i \<and> i < int (length memo))"

definition load :: "memo \<Rightarrow> int \<Rightarrow> error + int" where
  "load memo i = (if in_bounds i memo then Inr (memo ! nat i) else Inl OutOfBounds)"

definition store :: "memo \<Rightarrow> int \<Rightarrow> int \<Rightarrow> error + memo" where
  "store memo i v = (if in_bounds i memo then Inr (memo[nat i := v]) else Inl OutOfBounds)"

text \<open>The cache \<open>{ 0, }\<close> of capacity \<open>N\<close>: every slot is the sentinel zero.\<close>

definition fresh :: "nat \<Rightarrow> memo" where
  "fresh N = replicate N 0"

section \<open>The three variants\<close>

text \<open>\<open>int fibonacci(int n)\<close>, lines 14 to 22.\<close>

function fibonacci :: "int \<Rightarrow> error + (int \<times> exit)" where
  "fibonacci n =
     (if n \<le> 2 then Inr (1, BaseCase)
      else
        (case fibonacci (n - 1) of
           Inl e \<Rightarrow> Inl e
         | Inr (a, _) \<Rightarrow>
             (case fibonacci (n - 2) of
                Inl e \<Rightarrow> Inl e
              | Inr (b, _) \<Rightarrow>
                  (case add_int a b of
                     Inl e \<Rightarrow> Inl e
                   | Inr s \<Rightarrow> Inr (s, Recursive)))))"
  by pat_completeness auto
termination
  by (relation "measure nat") auto

text \<open>
  The guards of the two memoized variants (lines 38 and 63). They differ: the constexpr
  variant has no \<open>n > 0\<close>.
\<close>

definition base_case_guard :: "int \<Rightarrow> bool" where
  "base_case_guard n = (n \<le> 2 \<and> n > 0)"

definition base_case_guardC :: "int \<Rightarrow> bool" where
  "base_case_guardC n = (n \<le> 2)"

text \<open>
  \<open>int fibonacci(int n, std::array<int, N>& memo)\<close>, lines 30 to 46. The array is passed
  by reference; the model returns it updated. C++ leaves the order of the two operands
  of \<open>+\<close> open; the model evaluates the left one first, as compilers do for this
  expression.
\<close>

function fibonacci_memo :: "int \<Rightarrow> memo \<Rightarrow> error + (int \<times> memo \<times> exit)" where
  "fibonacci_memo n memo =
     (case load memo (n - 1) of
        Inl e \<Rightarrow> Inl e
      | Inr c \<Rightarrow>
          if c > 0 then Inr (c, memo, CacheHit)
          else if base_case_guard n then
            (case store memo (n - 1) 1 of
               Inl e \<Rightarrow> Inl e
             | Inr memo1 \<Rightarrow> Inr (1, memo1, BaseCase))
          else
            (case fibonacci_memo (n - 1) memo of
               Inl e \<Rightarrow> Inl e
             | Inr (a, memo1, _) \<Rightarrow>
                 (case fibonacci_memo (n - 2) memo1 of
                    Inl e \<Rightarrow> Inl e
                  | Inr (b, memo2, _) \<Rightarrow>
                      (case add_int a b of
                         Inl e \<Rightarrow> Inl e
                       | Inr s \<Rightarrow>
                           (case store memo2 (n - 1) s of
                              Inl e \<Rightarrow> Inl e
                            | Inr memo3 \<Rightarrow>
                                (case load memo3 (n - 1) of
                                   Inl e \<Rightarrow> Inl e
                                 | Inr r \<Rightarrow> Inr (r, memo3, Recursive)))))))"
  by pat_completeness auto
termination
  by (relation "measure (\<lambda>(n, memo). nat n)")
    (auto simp: load_def in_bounds_def base_case_guard_def split: if_splits)

text \<open>\<open>constexpr int fibonacciC(int n, std::array<int, N>& memo)\<close>, lines 55 to 71.\<close>

function fibonacciC :: "int \<Rightarrow> memo \<Rightarrow> error + (int \<times> memo \<times> exit)" where
  "fibonacciC n memo =
     (case load memo (n - 1) of
        Inl e \<Rightarrow> Inl e
      | Inr c \<Rightarrow>
          if c > 0 then Inr (c, memo, CacheHit)
          else if base_case_guardC n then
            (case store memo (n - 1) 1 of
               Inl e \<Rightarrow> Inl e
             | Inr memo1 \<Rightarrow> Inr (1, memo1, BaseCase))
          else
            (case fibonacciC (n - 1) memo of
               Inl e \<Rightarrow> Inl e
             | Inr (a, memo1, _) \<Rightarrow>
                 (case fibonacciC (n - 2) memo1 of
                    Inl e \<Rightarrow> Inl e
                  | Inr (b, memo2, _) \<Rightarrow>
                      (case add_int a b of
                         Inl e \<Rightarrow> Inl e
                       | Inr s \<Rightarrow>
                           (case store memo2 (n - 1) s of
                              Inl e \<Rightarrow> Inl e
                            | Inr memo3 \<Rightarrow>
                                (case load memo3 (n - 1) of
                                   Inl e \<Rightarrow> Inl e
                                 | Inr r \<Rightarrow> Inr (r, memo3, Recursive)))))))"
  by pat_completeness auto
termination
  by (relation "measure (\<lambda>(n, memo). nat n)")
    (auto simp: load_def in_bounds_def base_case_guardC_def split: if_splits)

text \<open>The \<open>int\<close> that a call returns, without the cache and the exit.\<close>

definition returned :: "error + (int \<times> 'a) \<Rightarrow> error + int" where
  "returned r = (case r of Inl e \<Rightarrow> Inl e | Inr (v, _) \<Rightarrow> Inr v)"

text \<open>
  The control flow of the memoized variant, lines 33 to 44. The guard of line 38 is
  evaluated when the read \<open>memo[n - 1]\<close> of line 33 has returned a value and that value
  is not a hit; the recursive branch of line 44 is entered when the guard is evaluated
  and does not hold.
\<close>

definition reaches_guard :: "int \<Rightarrow> memo \<Rightarrow> bool" where
  "reaches_guard n memo = (case load memo (n - 1) of Inl e \<Rightarrow> False | Inr c \<Rightarrow> \<not> c > 0)"

definition enters_recursive_branch :: "int \<Rightarrow> memo \<Rightarrow> bool" where
  "enters_recursive_branch n memo = (reaches_guard n memo \<and> \<not> base_case_guard n)"

section \<open>The driver\<close>

text \<open>\<open>operator<<\<close> on an integer writes it in decimal, with a minus sign when negative.\<close>

definition digit_char :: "nat \<Rightarrow> char" where
  "digit_char d = ''0123456789'' ! d"

function show_nat :: "nat \<Rightarrow> string" where
  "show_nat n = (if n < 10 then [digit_char n] else show_nat (n div 10) @ [digit_char (n mod 10)])"
  by pat_completeness auto
termination
  by (relation "measure id") auto

definition show_int :: "int \<Rightarrow> string" where
  "show_int i = (if i < 0 then ''-'' @ show_nat (nat (- i)) else show_nat (nat i))"

definition endl :: string where
  "endl = [CHR 0x0A]"

definition fibN :: int where
  "fibN = 42"

text \<open>
  \<open>main\<close>, lines 73 to 102. The three clock differences \<open>durationClassic.count()\<close>,
  \<open>durationArray.count()\<close> and \<open>durationArrayConstexpr.count()\<close> are inputs of the model;
  its result is the text written to \<open>std::cout\<close>. The one array \<open>memoA\<close> goes through both
  memoized calls.
\<close>

definition main :: "int \<Rightarrow> int \<Rightarrow> int \<Rightarrow> error + string" where
  "main durationClassic durationArray durationArrayConstexpr =
     (case fibonacci fibN of
        Inl e \<Rightarrow> Inl e
      | Inr (result1, _) \<Rightarrow>
          (case fibonacci_memo fibN (fresh (nat fibN)) of
             Inl e \<Rightarrow> Inl e
           | Inr (result3, memoA, _) \<Rightarrow>
               (case fibonacciC fibN memoA of
                  Inl e \<Rightarrow> Inl e
                | Inr (result4, memoA', _) \<Rightarrow>
                    Inr (''fibonacci('' @ show_int fibN @ '') = '' @ show_int result1 @ endl @
                         ''time = '' @ show_int durationClassic @ '' us'' @ endl @ endl @
                         ''fibonacci<array>('' @ show_int fibN @ '') = '' @ show_int result3 @ endl @
                         ''time = '' @ show_int durationArray @ '' us'' @ endl @ endl @
                         ''fibonacci<array, constexpr>('' @ show_int fibN @ '') = '' @
                           show_int result4 @ endl @
                         ''time = '' @ show_int durationArrayConstexpr @ '' us'' @ endl @ endl))))"

text \<open>
  Any sequence of memoized calls on one shared cache, as the driver makes two of them:
  each call receives the cache the previous one left.
\<close>

datatype call = MemoFib int | ConstFib int

fun call_index :: "call \<Rightarrow> int" where
  "call_index (MemoFib n) = n"
| "call_index (ConstFib n) = n"

fun perform :: "call \<Rightarrow> memo \<Rightarrow> error + memo" where
  "perform (MemoFib n) memo =
     (case fibonacci_memo n memo of Inl e \<Rightarrow> Inl e | Inr (_, memo', _) \<Rightarrow> Inr memo')"
| "perform (ConstFib n) memo =
     (case fibonacciC n memo of Inl e \<Rightarrow> Inl e | Inr (_, memo', _) \<Rightarrow> Inr memo')"

fun run_calls :: "call list \<Rightarrow> memo \<Rightarrow> error + memo" where
  "run_calls [] memo = Inr memo"
| "run_calls (c # cs) memo =
     (case perform c memo of Inl e \<Rightarrow> Inl e | Inr memo' \<Rightarrow> run_calls cs memo')"

section \<open>The notions of the specification\<close>

text \<open>
  The true Fibonacci numbers under the convention \<open>fib(1) = fib(2) = 1\<close>, as unbounded
  integers (\<open>fib_spec 0 = 0\<close> extends the recurrence downwards).
\<close>

fun fib_spec :: "nat \<Rightarrow> int" where
  "fib_spec 0 = 0"
| "fib_spec (Suc 0) = 1"
| "fib_spec (Suc (Suc n)) = fib_spec (Suc n) + fib_spec n"

text \<open>Two consecutive Fibonacci numbers at once: a linear way to compute \<open>fib_spec\<close>.\<close>

fun fib_pair :: "nat \<Rightarrow> int \<times> int" where
  "fib_pair 0 = (0, 1)"
| "fib_pair (Suc n) = (case fib_pair n of (a, b) \<Rightarrow> (b, a + b))"

text \<open>
  The indices that take part in the recurrence for \<open>n\<close>: \<open>n\<close> itself and, when \<open>n\<close> is not
  a base case, those of \<open>n - 1\<close> and \<open>n - 2\<close>.
\<close>

function recurrence_chain :: "int \<Rightarrow> int set" where
  "recurrence_chain n =
     (if n \<le> 2 then {n} else insert n (recurrence_chain (n - 1) \<union> recurrence_chain (n - 2)))"
  by pat_completeness auto
termination
  by (relation "measure nat") auto

text \<open>
  A cache populated up to \<open>n\<close>: it has the slots \<open>0\<close> to \<open>n - 1\<close> and each holds a stored
  value, which the code recognises by \<open>memo[i] > 0\<close>.
\<close>

definition populated_upto :: "int \<Rightarrow> memo \<Rightarrow> bool" where
  "populated_upto n memo =
     (n \<le> int (length memo) \<and> list_all (\<lambda>v. 0 < v) (take (nat n) memo))"

text \<open>
  The invariant of the cache: every slot holds the sentinel or the Fibonacci number of
  its index. And the shape the recursion leaves: from the third slot on, a stored value
  has both values it was computed from stored below it.
\<close>

definition consistent :: "memo \<Rightarrow> bool" where
  "consistent memo = (\<forall>i<length memo. memo ! i = 0 \<or> memo ! i = fib_spec (Suc i))"

definition dep_closed :: "memo \<Rightarrow> bool" where
  "dep_closed memo =
     (\<forall>i<length memo. 2 \<le> i \<longrightarrow> 0 < memo ! i \<longrightarrow> 0 < memo ! (i - 1) \<and> 0 < memo ! (i - 2))"

text \<open>A cache whose slots all hold values of the type \<open>int\<close>.\<close>

definition within_int :: "memo \<Rightarrow> bool" where
  "within_int memo = list_all (\<lambda>v. INT_MIN \<le> v \<and> v \<le> INT_MAX) memo"

text \<open>
  What the specification promises of a sequence of calls on the all-zero cache of
  capacity \<open>N\<close>: the sequence leaves a cache, and that cache satisfies the invariant.
\<close>

definition leaves_consistent_cache :: "call list \<Rightarrow> nat \<Rightarrow> bool" where
  "leaves_consistent_cache cs N =
     (case run_calls cs (fresh N) of Inl e \<Rightarrow> False | Inr m \<Rightarrow> consistent m)"

text \<open>
  The output format in the specification's words: a line \<open>fibonacci(<n>) = <value>\<close>, a
  line \<open>time = <microseconds> us\<close>, for each of three variants, with a blank line between
  the blocks.
\<close>

definition split_lines :: "string \<Rightarrow> string list" where
  "split_lines s =
     foldr (\<lambda>c ls. if c = CHR 0x0A then [] # ls
                    else (case ls of [] \<Rightarrow> [[c]] | l # r \<Rightarrow> (c # l) # r)) s []"

definition strip_prefix :: "string \<Rightarrow> string \<Rightarrow> string option" where
  "strip_prefix p s = (if take (length p) s = p then Some (drop (length p) s) else None)"

definition is_digit :: "char \<Rightarrow> bool" where
  "is_digit c = (c \<in> set ''0123456789'')"

definition is_decimal :: "string \<Rightarrow> bool" where
  "is_decimal s =
     (case s of
        [] \<Rightarrow> False
      | c # r \<Rightarrow> if c = CHR ''-'' then r \<noteq> [] \<and> list_all is_digit r else list_all is_digit s)"

definition spec_result_form :: "string \<Rightarrow> bool" where
  "spec_result_form l =
     (case strip_prefix ''fibonacci('' l of
        None \<Rightarrow> False
      | Some r \<Rightarrow>
          is_decimal (takeWhile is_digit r) \<and>
          (case strip_prefix '') = '' (dropWhile is_digit r) of
             None \<Rightarrow> False
           | Some v \<Rightarrow> is_decimal v))"

definition spec_time_form :: "string \<Rightarrow> bool" where
  "spec_time_form l =
     (case strip_prefix ''time = '' l of
        None \<Rightarrow> False
      | Some r \<Rightarrow>
          4 \<le> length r \<and> is_decimal (take (length r - 3) r) \<and> drop (length r - 3) r = '' us'')"

definition spec_output_form :: "string \<Rightarrow> bool" where
  "spec_output_form out =
     (length (filter (\<lambda>l. l \<noteq> []) (split_lines out)) = 6 \<and>
      (case take 8 (split_lines out) of
         [r1, t1, b1, r2, t2, b2, r3, t3] \<Rightarrow>
           spec_result_form r1 \<and> spec_time_form t1 \<and> b1 = [] \<and>
           spec_result_form r2 \<and> spec_time_form t2 \<and> b2 = [] \<and>
           spec_result_form r3 \<and> spec_time_form t3
       | _ \<Rightarrow> False))"

definition output_ok :: "error + string \<Rightarrow> bool" where
  "output_ok r = (case r of Inl e \<Rightarrow> False | Inr out \<Rightarrow> spec_output_form out)"

section \<open>Reasoning about a call from its result\<close>

declare fibonacci.simps [simp del]
declare fibonacci_memo.simps [simp del]
declare fibonacciC.simps [simp del]
declare recurrence_chain.simps [simp del]
declare show_nat.simps [simp del]

text \<open>
  A call that returns did so through exactly one of the three \<open>return\<close> statements; the
  rule names what holds in each case.
\<close>

lemma fibonacci_memo_cases [consumes 1, case_names hit base rec]:
  assumes "fibonacci_memo n memo = Inr (v, m', e)"
  obtains
    (hit) "in_bounds (n - 1) memo" "0 < memo ! nat (n - 1)"
      "v = memo ! nat (n - 1)" "m' = memo" "e = CacheHit"
  | (base) "in_bounds (n - 1) memo" "memo ! nat (n - 1) \<le> 0" "base_case_guard n"
      "v = 1" "m' = memo[nat (n - 1) := 1]" "e = BaseCase"
  | (rec) a m1 e1 b m2 e2 where
      "in_bounds (n - 1) memo" "memo ! nat (n - 1) \<le> 0" "\<not> base_case_guard n"
      "fibonacci_memo (n - 1) memo = Inr (a, m1, e1)"
      "fibonacci_memo (n - 2) m1 = Inr (b, m2, e2)"
      "add_int a b = Inr v" "in_bounds (n - 1) m2"
      "m' = m2[nat (n - 1) := v]" "e = Recursive"
proof -
  note eq = assms [unfolded fibonacci_memo.simps [of n memo]]
  from eq obtain c where c: "load memo (n - 1) = Inr c"
    by (cases "load memo (n - 1)") auto
  then have ib: "in_bounds (n - 1) memo" and cv: "c = memo ! nat (n - 1)"
    by (auto simp: load_def split: if_splits)
  show thesis
  proof (cases "0 < c")
    case True
    with eq c cv ib show thesis by (intro hit) auto
  next
    case nothit: False
    show thesis
    proof (cases "base_case_guard n")
      case True
      with eq c cv ib nothit show thesis
        by (intro base) (auto simp: store_def)
    next
      case False
      with eq c nothit obtain a m1 e1 where r1: "fibonacci_memo (n - 1) memo = Inr (a, m1, e1)"
        by (cases "fibonacci_memo (n - 1) memo") auto
      with eq c nothit False obtain b m2 e2 where r2: "fibonacci_memo (n - 2) m1 = Inr (b, m2, e2)"
        by (cases "fibonacci_memo (n - 2) m1") auto
      with eq c nothit False r1 obtain s where s: "add_int a b = Inr s"
        by (cases "add_int a b") auto
      with eq c nothit False r1 r2 have ib2: "in_bounds (n - 1) m2"
        by (auto simp: store_def split: if_splits)
      with eq c nothit False r1 r2 s have "v = s" "m' = m2[nat (n - 1) := s]" "e = Recursive"
        by (auto simp: store_def load_def in_bounds_def split: if_splits)
      with ib cv nothit False r1 r2 s ib2 show thesis
        by (intro rec[of a m1 e1 b m2 e2]) auto
    qed
  qed
qed

text \<open>
  Induction over the calls that return: a property that holds for every cache hit and
  every base case, and that a recursive call inherits from its two inner calls, holds for
  every call that returns.
\<close>

lemma fibonacci_memo_induct [consumes 1, case_names hit base rec]:
  assumes "fibonacci_memo n memo = Inr (v, m', e)"
    and hit: "\<And>n memo. in_bounds (n - 1) memo \<Longrightarrow> 0 < memo ! nat (n - 1) \<Longrightarrow>
      P n memo (memo ! nat (n - 1)) memo CacheHit"
    and base: "\<And>n memo. in_bounds (n - 1) memo \<Longrightarrow> memo ! nat (n - 1) \<le> 0 \<Longrightarrow>
      base_case_guard n \<Longrightarrow> P n memo 1 (memo[nat (n - 1) := 1]) BaseCase"
    and rec: "\<And>n memo a m1 e1 b m2 e2 s. in_bounds (n - 1) memo \<Longrightarrow>
      memo ! nat (n - 1) \<le> 0 \<Longrightarrow> \<not> base_case_guard n \<Longrightarrow>
      fibonacci_memo (n - 1) memo = Inr (a, m1, e1) \<Longrightarrow> P (n - 1) memo a m1 e1 \<Longrightarrow>
      fibonacci_memo (n - 2) m1 = Inr (b, m2, e2) \<Longrightarrow> P (n - 2) m1 b m2 e2 \<Longrightarrow>
      add_int a b = Inr s \<Longrightarrow> in_bounds (n - 1) m2 \<Longrightarrow>
      P n memo s (m2[nat (n - 1) := s]) Recursive"
  shows "P n memo v m' e"
  using assms(1)
proof (induction n memo arbitrary: v m' e rule: fibonacci_memo.induct)
  case (1 n memo)
  from "1.prems" show ?case
  proof (cases rule: fibonacci_memo_cases)
    case hit
    then show ?thesis using assms(2) by simp
  next
    case base
    then show ?thesis using assms(3) by simp
  next
    case (rec a m1 e1 b m2 e2)
    have ld: "load memo (n - 1) = Inr (memo ! nat (n - 1))"
      using rec(1) by (simp add: load_def)
    have nh: "\<not> 0 < memo ! nat (n - 1)"
      using rec(2) by simp
    have p1: "P (n - 1) memo a m1 e1"
      using "1.IH"(1) [OF ld nh rec(3) rec(4)] .
    have p2: "P (n - 2) m1 b m2 e2"
      using "1.IH"(2) [OF ld nh rec(3) rec(4) refl refl rec(5)] .
    show ?thesis
      unfolding rec(8,9)
      by (rule assms(4) [OF rec(1,2,3,4) p1 rec(5) p2 rec(6,7)])
  qed
qed


text \<open>
  Both memoized variants read \<open>memo[n - 1]\<close> before their guard. Where that read is in
  range, \<open>n\<close> is positive and the two guards agree, so the variants compute the same
  function.
\<close>

lemma guards_agree: "in_bounds (n - 1) memo \<Longrightarrow> base_case_guardC n = base_case_guard n"
  by (auto simp: in_bounds_def base_case_guard_def base_case_guardC_def)

lemma fibonacciC_eq_memo: "fibonacciC n memo = fibonacci_memo n memo"
proof (induction n memo rule: fibonacci_memo.induct)
  case (1 n memo)
  show ?case
  proof (cases "load memo (n - 1)")
    case (Inl e)
    then show ?thesis
      by (simp add: fibonacciC.simps [of n memo] fibonacci_memo.simps [of n memo])
  next
    case (Inr c)
    then have g: "base_case_guardC n = base_case_guard n"
      by (auto simp: load_def guards_agree split: if_splits)
    show ?thesis
    proof (cases "0 < c \<or> base_case_guard n")
      case True
      with Inr g show ?thesis
        by (auto simp: fibonacciC.simps [of n memo] fibonacci_memo.simps [of n memo])
    next
      case False
      then have nc: "\<not> 0 < c" and ng: "\<not> base_case_guard n" by auto
      have ih1: "fibonacciC (n - 1) memo = fibonacci_memo (n - 1) memo"
        using "1.IH"(1) [OF Inr nc ng] .
      show ?thesis
      proof (cases "fibonacci_memo (n - 1) memo")
        case (Inl e)
        with Inr g nc ng ih1 show ?thesis
          by (simp add: fibonacciC.simps [of n memo] fibonacci_memo.simps [of n memo])
      next
        case r1: (Inr x)
        obtain a m1 e1 where x: "x = (a, m1, e1)" by (cases x) auto
        have ih2: "fibonacciC (n - 2) m1 = fibonacci_memo (n - 2) m1"
          using "1.IH"(2) [OF Inr nc ng r1 [unfolded x] refl refl] .
        with Inr g nc ng ih1 r1 x show ?thesis
          by (simp add: fibonacciC.simps [of n memo] fibonacci_memo.simps [of n memo])
      qed
    qed
  qed
qed


lemma add_int_Inr: "add_int a b = Inr s \<longleftrightarrow> s = a + b \<and> INT_MIN \<le> a + b \<and> a + b \<le> INT_MAX"
  by (auto simp: add_int_def)

text \<open>
  What every returning call guarantees, on any cache: the cache keeps its length, the
  index was in range, the value is positive and stored in slot \<open>n - 1\<close>, and no slot that
  held a positive value changed.
\<close>

lemma fibonacci_memo_frame:
  assumes "fibonacci_memo n memo = Inr (v, m', e)"
  shows "length m' = length memo \<and> in_bounds (n - 1) memo \<and> 0 < v \<and> m' ! nat (n - 1) = v \<and>
    (\<forall>i<length memo. 0 < memo ! i \<longrightarrow> m' ! i = memo ! i)"
  using assms
proof (induction rule: fibonacci_memo_induct)
  case (hit n memo)
  then show ?case by simp
next
  case (base n memo)
  then show ?case by (auto simp: in_bounds_def nth_list_update)
next
  case (rec n memo a m1 e1 b m2 e2 s)
  from rec.hyps have s: "s = a + b" by (simp add: add_int_Inr)
  with rec show ?case by (auto simp: in_bounds_def nth_list_update)
qed

text \<open>A call with index \<open>n\<close> writes no slot from \<open>n\<close> on.\<close>

lemma fibonacci_memo_above:
  assumes "fibonacci_memo n memo = Inr (v, m', e)"
  shows "\<forall>i. nat n \<le> i \<longrightarrow> m' ! i = memo ! i"
  using assms
proof (induction rule: fibonacci_memo_induct)
  case (hit n memo)
  then show ?case by simp
next
  case (base n memo)
  then have "nat (n - 1) < nat n" by (auto simp: in_bounds_def)
  then show ?case by simp
next
  case (rec n memo a m1 e1 b m2 e2 s)
  from rec.hyps have "nat (n - 1) < nat n" "nat (n - 1) \<le> nat n" "nat (n - 2) \<le> nat n"
    by (auto simp: in_bounds_def)
  with rec.IH show ?case by simp
qed

section \<open>The cache invariant\<close>

lemma fib_spec_nat:
  assumes "3 \<le> n"
  shows "fib_spec (nat n) = fib_spec (nat (n - 1)) + fib_spec (nat (n - 2))"
proof -
  have "nat n = Suc (Suc (nat (n - 2)))" and "nat (n - 1) = Suc (nat (n - 2))"
    using assms by arith+
  then show ?thesis by simp
qed

lemma consistent_update:
  assumes "consistent m" and "v = fib_spec (Suc k)"
  shows "consistent (m[k := v])"
  unfolding consistent_def
proof (intro allI impI)
  fix i
  assume "i < length (m[k := v])"
  then have i: "i < length m" by simp
  show "m[k := v] ! i = 0 \<or> m[k := v] ! i = fib_spec (Suc i)"
  proof (cases "i = k")
    case True
    with i assms(2) show ?thesis by simp
  next
    case False
    with i assms(1) show ?thesis by (simp add: consistent_def)
  qed
qed

lemma fibonacci_memo_consistent:
  assumes "fibonacci_memo n memo = Inr (v, m', e)"
  shows "consistent memo \<longrightarrow> v = fib_spec (nat n) \<and> consistent m'"
  using assms
proof (induction rule: fibonacci_memo_induct)
  case (hit n memo)
  then show ?case
  proof -
    from hit have k: "nat (n - 1) < length memo" and n: "Suc (nat (n - 1)) = nat n"
      by (auto simp: in_bounds_def)
    show ?thesis
    proof
      assume c: "consistent memo"
      with k have "memo ! nat (n - 1) = 0 \<or> memo ! nat (n - 1) = fib_spec (Suc (nat (n - 1)))"
        by (simp add: consistent_def)
      with hit n c show "memo ! nat (n - 1) = fib_spec (nat n) \<and> consistent memo" by simp
    qed
  qed
next
  case (base n memo)
  then have "n = 1 \<or> n = 2" by (auto simp: base_case_guard_def)
  then have "fib_spec (nat n) = 1" and "fib_spec (Suc (nat (n - 1))) = 1"
    by (auto simp: numeral_2_eq_2)
  then show ?case
    by (simp add: consistent_update)
next
  case (rec n memo a m1 e1 b m2 e2 s)
  from rec.hyps have s: "s = a + b" by (simp add: add_int_Inr)
  from rec.hyps have n3: "3 \<le> n" by (auto simp: in_bounds_def base_case_guard_def)
  show ?case
  proof
    assume c: "consistent memo"
    with rec.IH have a: "a = fib_spec (nat (n - 1))" and c1: "consistent m1" by auto
    with rec.IH have b: "b = fib_spec (nat (n - 2))" and c2: "consistent m2" by auto
    have v: "s = fib_spec (nat n)" using s a b fib_spec_nat [OF n3] by simp
    have "Suc (nat (n - 1)) = nat n" using n3 by simp
    with c2 v have "consistent (m2[nat (n - 1) := s])"
      by (simp add: consistent_update)
    with v show "s = fib_spec (nat n) \<and> consistent (m2[nat (n - 1) := s])" by simp
  qed
qed


lemma dep_closed_update:
  assumes "dep_closed m" and "0 < v"
    and "2 \<le> k \<longrightarrow> 0 < m ! (k - 1) \<and> 0 < m ! (k - 2)"
  shows "dep_closed (m[k := v])"
  unfolding dep_closed_def
proof (intro allI impI)
  fix i
  assume i': "i < length (m[k := v])" and i2: "2 \<le> i" and p: "0 < m[k := v] ! i"
  from i' have i: "i < length m" by simp
  have below: "0 < m ! (i - 1) \<and> 0 < m ! (i - 2)"
  proof (cases "i = k")
    case True
    with assms(3) i2 show ?thesis by simp
  next
    case False
    with p i have "0 < m ! i" by simp
    with assms(1) i i2 show ?thesis by (simp add: dep_closed_def)
  qed
  have upd: "0 < m[k := v] ! j" if "j < length m" "0 < m ! j" for j
    using that assms(2) by (cases "j = k") simp_all
  from i i2 have "i - 1 < length m" "i - 2 < length m" by arith+
  with below upd show "0 < m[k := v] ! (i - 1) \<and> 0 < m[k := v] ! (i - 2)" by blast
qed

lemma fibonacci_memo_dep_closed:
  assumes "fibonacci_memo n memo = Inr (v, m', e)"
  shows "dep_closed memo \<longrightarrow> dep_closed m'"
  using assms
proof (induction rule: fibonacci_memo_induct)
  case (hit n memo)
  then show ?case by simp
next
  case (base n memo)
  then have "\<not> 2 \<le> nat (n - 1)" by (auto simp: base_case_guard_def)
  then show ?case by (simp add: dep_closed_update)
next
  case (rec n memo a m1 e1 b m2 e2 s)
  note f1 = fibonacci_memo_frame [OF rec.hyps(4)]
  note f2 = fibonacci_memo_frame [OF rec.hyps(5)]
  from rec.hyps have n3: "3 \<le> n" by (auto simp: in_bounds_def base_case_guard_def)
  from rec.hyps have s: "s = a + b" by (simp add: add_int_Inr)
  with f1 f2 have sp: "0 < s" by simp
  have k1: "nat (n - 1) - 1 = nat (n - 1 - 1)" and k2: "nat (n - 1) - 2 = nat (n - 2 - 1)"
    using n3 by arith+
  from f1 f2 have "nat (n - 1 - 1) < length m1" and "0 < m1 ! nat (n - 1 - 1)"
    by (auto simp: in_bounds_def)
  with f2 have p1: "0 < m2 ! nat (n - 1 - 1)" by simp
  from f2 have p2: "0 < m2 ! nat (n - 2 - 1)" by simp
  show ?case
  proof
    assume "dep_closed memo"
    with rec.IH have "dep_closed m2" by simp
    then show "dep_closed (m2[nat (n - 1) := s])"
      using sp p1 p2 k1 k2 by (simp add: dep_closed_update)
  qed
qed

text \<open>
  In a cache of that shape a stored value from the third slot on has every slot below
  it stored too.
\<close>

lemma dep_closed_below:
  assumes "dep_closed m"
  shows "2 \<le> k \<Longrightarrow> k < length m \<Longrightarrow> 0 < m ! k \<Longrightarrow> i \<le> k \<Longrightarrow> 0 < m ! i"
proof (induction k arbitrary: i rule: less_induct)
  case (less k)
  from assms less.prems have b: "0 < m ! (k - 1)" "0 < m ! (k - 2)"
    by (auto simp: dep_closed_def)
  show ?case
  proof (cases "i = k")
    case True
    with less.prems show ?thesis by simp
  next
    case ik: False
    show ?thesis
    proof (cases "k = 2")
      case True
      with ik less.prems have "i = 0 \<or> i = 1" by arith
      with b True show ?thesis by auto
    next
      case False
      with less.prems ik have "2 \<le> k - 1" "k - 1 < k" "k - 1 < length m" "i \<le> k - 1"
        by arith+
      with less.IH [of "k - 1" i] b show ?thesis by simp
    qed
  qed
qed

lemma consistent_fresh: "consistent (fresh N)"
  by (simp add: consistent_def fresh_def)

lemma dep_closed_fresh: "dep_closed (fresh N)"
  by (simp add: dep_closed_def fresh_def)


section \<open>The Fibonacci numbers and the range of \<open>int\<close>\<close>

lemma fib_pair_spec: "fib_pair n = (fib_spec n, fib_spec (Suc n))"
  by (induction n) simp_all

lemma fib_spec_45: "fib_spec 45 = 1134903170"
proof -
  have "fib_pair 45 = (1134903170, 1836311903)" by code_simp
  then show ?thesis by (simp add: fib_pair_spec)
qed

lemma fib_spec_46: "fib_spec 46 = 1836311903"
proof -
  have "fib_pair 45 = (1134903170, 1836311903)" by code_simp
  then show ?thesis by (simp add: fib_pair_spec)
qed

lemma fib_spec_47: "fib_spec 47 = 2971215073"
proof -
  have "fib_pair 46 = (1836311903, 2971215073)" by code_simp
  then show ?thesis by (simp add: fib_pair_spec)
qed

lemma fib_spec_nonneg: "0 \<le> fib_spec n"
  by (induction n rule: fib_spec.induct) simp_all

lemma fib_spec_pos: "0 < n \<Longrightarrow> 0 < fib_spec n"
proof (induction n rule: fib_spec.induct)
  case (3 n)
  have "0 < fib_spec (Suc n)" using 3 by simp
  with fib_spec_nonneg [of n] show ?case by simp
qed simp_all

lemma fib_spec_Suc_le: "fib_spec n \<le> fib_spec (Suc n)"
  using fib_spec_nonneg by (cases n) (simp_all add: add_increasing2)

lemma fib_spec_mono: "m \<le> n \<Longrightarrow> fib_spec m \<le> fib_spec n"
  by (rule lift_Suc_mono_le [of fib_spec]) (simp_all add: fib_spec_Suc_le)

lemma fib_spec_fits: "n \<le> 46 \<Longrightarrow> INT_MIN \<le> fib_spec n \<and> fib_spec n \<le> INT_MAX"
  using fib_spec_mono [of n 46] fib_spec_nonneg [of n]
  by (simp add: fib_spec_46 INT_MIN_def INT_MAX_def)

lemma fib_spec_exceeds: "47 \<le> n \<Longrightarrow> INT_MAX < fib_spec n"
  using fib_spec_mono [of 47 n] by (simp add: fib_spec_47 INT_MAX_def)

section \<open>The naive variant in closed form\<close>

text \<open>
  \<open>fib_spec 46\<close> is the last Fibonacci number that an \<open>int\<close> holds. The naive variant
  returns 1 from its base case for every \<open>n \<le> 2\<close>, the Fibonacci number for \<open>3 \<le> n \<le> 46\<close>,
  and overflows in its addition from 47 on.
\<close>

lemma fibonacci_closed:
  "fibonacci n =
     (if n \<le> 2 then Inr (1, BaseCase)
      else if n \<le> 46 then Inr (fib_spec (nat n), Recursive)
      else Inl SignedOverflow)"
proof (induction "nat n" arbitrary: n rule: less_induct)
  case less
  show ?case
  proof (cases "n \<le> 2")
    case True
    then show ?thesis by (simp add: fibonacci.simps [of n])
  next
    case False
    then have n3: "3 \<le> n" by simp
    then have "nat (n - 1) < nat n" "nat (n - 2) < nat n" by arith+
    note ih1 = less [OF this(1)] and ih2 = less [OF this(2)]
    have small: "fib_spec (nat k) = 1" if "1 \<le> k" "k \<le> 2" for k
    proof -
      from that have "nat k = Suc 0 \<or> nat k = Suc (Suc 0)" by arith
      then show ?thesis by auto
    qed
    show ?thesis
    proof (cases "n \<le> 47")
      case True
      with n3 ih1 small [of "n - 1"] obtain e1 where
        r1: "fibonacci (n - 1) = Inr (fib_spec (nat (n - 1)), e1)"
        by (cases "n - 1 \<le> 2") auto
      from True n3 ih2 small [of "n - 2"] obtain e2 where
        r2: "fibonacci (n - 2) = Inr (fib_spec (nat (n - 2)), e2)"
        by (cases "n - 2 \<le> 2") auto
      have sum: "fib_spec (nat (n - 1)) + fib_spec (nat (n - 2)) = fib_spec (nat n)"
        using fib_spec_nat [OF n3] by simp
      show ?thesis
      proof (cases "n \<le> 46")
        case True
        then have "nat n \<le> 46" by simp
        from fib_spec_fits [OF this] r1 r2 sum n3 True show ?thesis
          by (simp add: fibonacci.simps [of n] add_int_def)
      next
        case False
        then have "47 \<le> nat n" by simp
        from fib_spec_exceeds [OF this] r1 r2 sum n3 False show ?thesis
          by (simp add: fibonacci.simps [of n] add_int_def)
      qed
    next
      case False
      with ih1 have "fibonacci (n - 1) = Inl SignedOverflow" by simp
      with False show ?thesis by (simp add: fibonacci.simps [of n])
    qed
  qed
qed


section \<open>When the memoized variant returns\<close>

text \<open>The three ways through the function, and the fault of its first statement.\<close>

lemma in_bounds_nat: "in_bounds i m \<Longrightarrow> nat i < length m"
  unfolding in_bounds_def by arith

lemma fibonacci_memo_hitI:
  "in_bounds (n - 1) memo \<Longrightarrow> 0 < memo ! nat (n - 1) \<Longrightarrow>
   fibonacci_memo n memo = Inr (memo ! nat (n - 1), memo, CacheHit)"
  by (simp add: fibonacci_memo.simps [of n memo] load_def)

lemma fibonacci_memo_baseI:
  "in_bounds (n - 1) memo \<Longrightarrow> memo ! nat (n - 1) \<le> 0 \<Longrightarrow> base_case_guard n \<Longrightarrow>
   fibonacci_memo n memo = Inr (1, memo[nat (n - 1) := 1], BaseCase)"
  by (simp add: fibonacci_memo.simps [of n memo] load_def store_def)

lemma fibonacci_memo_recI:
  "in_bounds (n - 1) memo \<Longrightarrow> memo ! nat (n - 1) \<le> 0 \<Longrightarrow> \<not> base_case_guard n \<Longrightarrow>
   fibonacci_memo (n - 1) memo = Inr (a, m1, e1) \<Longrightarrow>
   fibonacci_memo (n - 2) m1 = Inr (b, m2, e2) \<Longrightarrow>
   add_int a b = Inr s \<Longrightarrow> in_bounds (n - 1) m2 \<Longrightarrow>
   fibonacci_memo n memo = Inr (s, m2[nat (n - 1) := s], Recursive)"
  using in_bounds_nat [of "n - 1" m2]
  by (simp add: fibonacci_memo.simps [of n memo] load_def store_def in_bounds_def)

lemma fibonacci_memo_out_of_bounds:
  "\<not> in_bounds (n - 1) memo \<Longrightarrow> fibonacci_memo n memo = Inl OutOfBounds"
  by (simp add: fibonacci_memo.simps [of n memo] load_def)

text \<open>
  On a cache that satisfies the invariant, a call with \<open>1 \<le> n \<le> 46\<close> inside the capacity
  returns, and returns the Fibonacci number. From 47 on the addition overflows.
\<close>

lemma fibonacci_memo_returns:
  "consistent memo \<Longrightarrow> 1 \<le> n \<Longrightarrow> n \<le> 46 \<Longrightarrow> n \<le> int (length memo) \<Longrightarrow>
   \<exists>m' e. fibonacci_memo n memo = Inr (fib_spec (nat n), m', e)"
proof (induction "nat n" arbitrary: n memo rule: less_induct)
  case less
  from less.prems have ib: "in_bounds (n - 1) memo" by (simp add: in_bounds_def)
  have "\<exists>v m' e. fibonacci_memo n memo = Inr (v, m', e)"
  proof (cases "0 < memo ! nat (n - 1)")
    case True
    with ib show ?thesis by (simp add: fibonacci_memo_hitI)
  next
    case False
    then have nh: "memo ! nat (n - 1) \<le> 0" by simp
    show ?thesis
    proof (cases "base_case_guard n")
      case True
      with ib nh show ?thesis by (simp add: fibonacci_memo_baseI)
    next
      case False
      with less.prems have n3: "3 \<le> n" by (simp add: base_case_guard_def)
      then have lt: "nat (n - 1) < nat n" "nat (n - 2) < nat n" by arith+
      from less.hyps [OF lt(1) less.prems(1)] n3 less.prems obtain m1 e1 where
        r1: "fibonacci_memo (n - 1) memo = Inr (fib_spec (nat (n - 1)), m1, e1)" by auto
      from fibonacci_memo_consistent [OF r1] less.prems(1) have c1: "consistent m1" by simp
      from fibonacci_memo_frame [OF r1] have l1: "length m1 = length memo" by simp
      from less.hyps [OF lt(2) c1] n3 less.prems l1 obtain m2 e2 where
        r2: "fibonacci_memo (n - 2) m1 = Inr (fib_spec (nat (n - 2)), m2, e2)" by auto
      from fibonacci_memo_frame [OF r2] l1 have l2: "length m2 = length memo" by simp
      with ib have ib2: "in_bounds (n - 1) m2" by (simp add: in_bounds_def)
      from less.prems have "nat n \<le> 46" by simp
      from fib_spec_fits [OF this] fib_spec_nat [OF n3]
      have "add_int (fib_spec (nat (n - 1))) (fib_spec (nat (n - 2))) = Inr (fib_spec (nat n))"
        by (simp add: add_int_def)
      from fibonacci_memo_recI [OF ib nh False r1 r2 this ib2] show ?thesis by blast
    qed
  qed
  then obtain v m' e where r: "fibonacci_memo n memo = Inr (v, m', e)" by blast
  with fibonacci_memo_consistent [OF r] less.prems(1) show ?case by simp
qed

lemma fibonacci_memo_overflows:
  "consistent memo \<Longrightarrow> within_int memo \<Longrightarrow> 47 \<le> n \<Longrightarrow> n \<le> int (length memo) \<Longrightarrow>
   fibonacci_memo n memo = Inl SignedOverflow"
proof (induction "nat n" arbitrary: n rule: less_induct)
  case less
  from less.prems have k: "nat (n - 1) < length memo" and sk: "Suc (nat (n - 1)) = nat n"
    and big: "47 \<le> nat n" by auto
  from less.prems(2) k have "memo ! nat (n - 1) \<le> INT_MAX"
    by (simp add: within_int_def list_all_length)
  with fib_spec_exceeds [OF big] less.prems(1) k sk have z: "memo ! nat (n - 1) = 0"
    by (auto simp: consistent_def)
  from less.prems have ng: "\<not> base_case_guard n" by (simp add: base_case_guard_def)
  from k less.prems have ld: "load memo (n - 1) = Inr 0"
    using z by (simp add: load_def in_bounds_def)
  show ?case
  proof (cases "n = 47")
    case True
    from fibonacci_memo_returns [OF less.prems(1), of 46] less.prems True obtain m1 e1 where
      r1: "fibonacci_memo 46 memo = Inr (fib_spec 46, m1, e1)" by auto
    from fibonacci_memo_consistent [OF r1] less.prems(1) have c1: "consistent m1" by simp
    from fibonacci_memo_frame [OF r1] have l1: "length m1 = length memo" by simp
    from fibonacci_memo_returns [OF c1, of 45] less.prems True l1 obtain m2 e2 where
      r2: "fibonacci_memo 45 m1 = Inr (fib_spec 45, m2, e2)" by auto
    have "add_int (fib_spec 46) (fib_spec 45) = Inl SignedOverflow"
      by (simp add: add_int_def fib_spec_45 fib_spec_46 INT_MAX_def)
    with ld ng r1 r2 True show ?thesis
      by (simp add: fibonacci_memo.simps [of 47 memo])
  next
    case False
    with less.prems have "nat (n - 1) < nat n" "47 \<le> n - 1" "n - 1 \<le> int (length memo)"
      by arith+
    from less.hyps [OF this(1) less.prems(1,2) this(2,3)] ld ng show ?thesis
      by (simp add: fibonacci_memo.simps [of n memo])
  qed
qed

lemma within_int_fresh: "within_int (fresh N)"
  by (simp add: within_int_def fresh_def INT_MIN_def INT_MAX_def list_all_length)


section \<open>The control flow of the memoized variant\<close>

text \<open>
  The function, written along its control flow: the recursive branch where it is entered,
  the base case where the guard is reached and holds, and otherwise the outcome of the
  first read. The guard is reached for positive \<open>n\<close> only, and a call that returns through
  the recursive branch has entered it.
\<close>

lemma fibonacci_memo_by_branch:
  "fibonacci_memo n memo =
     (if enters_recursive_branch n memo then
        (case fibonacci_memo (n - 1) memo of
           Inl e \<Rightarrow> Inl e
         | Inr (a, memo1, _) \<Rightarrow>
             (case fibonacci_memo (n - 2) memo1 of
                Inl e \<Rightarrow> Inl e
              | Inr (b, memo2, _) \<Rightarrow>
                  (case add_int a b of
                     Inl e \<Rightarrow> Inl e
                   | Inr s \<Rightarrow>
                       (case store memo2 (n - 1) s of
                          Inl e \<Rightarrow> Inl e
                        | Inr memo3 \<Rightarrow>
                            (case load memo3 (n - 1) of
                               Inl e \<Rightarrow> Inl e
                             | Inr r \<Rightarrow> Inr (r, memo3, Recursive))))))
      else if reaches_guard n memo then
        (case store memo (n - 1) 1 of
           Inl e \<Rightarrow> Inl e
         | Inr memo1 \<Rightarrow> Inr (1, memo1, BaseCase))
      else
        (case load memo (n - 1) of
           Inl e \<Rightarrow> Inl e
         | Inr c \<Rightarrow> Inr (c, memo, CacheHit)))"
  by (cases "load memo (n - 1)")
    (simp_all add: fibonacci_memo.simps [of n memo] reaches_guard_def
      enters_recursive_branch_def)

lemma reaches_guard_positive: "reaches_guard n memo \<Longrightarrow> 0 < n"
  by (auto simp: reaches_guard_def load_def in_bounds_def split: if_splits)

lemma recursive_exit_enters_branch:
  "fibonacci_memo n memo = Inr (v, m', Recursive) \<Longrightarrow> enters_recursive_branch n memo"
  by (erule fibonacci_memo_cases)
    (simp_all add: enters_recursive_branch_def reaches_guard_def load_def)

lemma fibonacciC_out_of_bounds:
  "\<not> in_bounds (n - 1) memo \<Longrightarrow> fibonacciC n memo = Inl OutOfBounds"
  by (simp add: fibonacciC.simps [of n memo] load_def)

text \<open>
  The addition that overflows in a call with \<open>n = 47\<close>: its operands are the 46th and the
  45th Fibonacci number, and their sum is the 47th, which no \<open>int\<close> holds.
\<close>

lemma overflow_at_47_operands:
  "returned (fibonacci_memo 46 (fresh 47)) = Inr 1836311903"
  "add_int 1836311903 1134903170 = Inl SignedOverflow"
  "fib_spec 47 = 1836311903 + 1134903170"
proof -
  have "consistent (fresh 47)" "46 \<le> int (length (fresh 47))"
    by (simp_all add: consistent_def fresh_def)
  from fibonacci_memo_returns [OF this(1) _ _ this(2)]
  show "returned (fibonacci_memo 46 (fresh 47)) = Inr 1836311903"
    by (auto simp: returned_def fib_spec_46)
  show "add_int 1836311903 1134903170 = Inl SignedOverflow"
    by (simp add: add_int_def INT_MAX_def)
  show "fib_spec 47 = 1836311903 + 1134903170"
    by (simp add: fib_spec_47)
qed

section \<open>The values the variants return\<close>

lemma fib_spec_small: "1 \<le> k \<Longrightarrow> k \<le> 2 \<Longrightarrow> fib_spec (nat k) = 1"
proof -
  assume "1 \<le> k" "k \<le> 2"
  then have "nat k = Suc 0 \<or> nat k = Suc (Suc 0)" by arith
  then show ?thesis by auto
qed

lemma naive_value:
  "1 \<le> n \<Longrightarrow> n \<le> 46 \<Longrightarrow> returned (fibonacci n) = Inr (fib_spec (nat n))"
  by (simp add: fibonacci_closed returned_def fib_spec_small)

lemma memo_fresh_value:
  assumes "1 \<le> n" and "n \<le> 46" and "n \<le> int N"
  shows "returned (fibonacci_memo n (fresh N)) = Inr (fib_spec (nat n))"
proof -
  from assms(3) have "n \<le> int (length (fresh N))" by (simp add: fresh_def)
  from fibonacci_memo_returns [OF consistent_fresh assms(1,2) this]
  show ?thesis by (auto simp: returned_def)
qed

lemma fib_spec_30: "fib_spec 30 = 832040"
proof -
  have "fib_pair 30 = (832040, 1346269)" by code_simp
  then show ?thesis by (simp add: fib_pair_spec)
qed

lemma fib_spec_known:
  "fib_spec 1 = 1" "fib_spec 2 = 1" "fib_spec 3 = 2" "fib_spec 10 = 55" "fib_spec 20 = 6765"
proof -
  have "fib_pair 1 = (1, 1)" "fib_pair 2 = (1, 2)" "fib_pair 3 = (2, 3)"
    "fib_pair 10 = (55, 89)" "fib_pair 20 = (6765, 10946)"
    by code_simp+
  then show "fib_spec 1 = 1" "fib_spec 2 = 1" "fib_spec 3 = 2" "fib_spec 10 = 55"
    "fib_spec 20 = 6765"
    by (simp_all add: fib_pair_spec)
qed

section \<open>Sequences of calls on one cache\<close>

lemma perform_consistent:
  "consistent memo \<Longrightarrow> perform c memo = Inr m' \<Longrightarrow> consistent m'"
proof (cases c)
  case (MemoFib n)
  assume c: "consistent memo" and p: "perform c memo = Inr m'"
  from p MemoFib obtain v e where "fibonacci_memo n memo = Inr (v, m', e)"
    by (auto split: sum.splits)
  from fibonacci_memo_consistent [OF this] c show ?thesis by simp
next
  case (ConstFib n)
  assume c: "consistent memo" and p: "perform c memo = Inr m'"
  from p ConstFib obtain v e where "fibonacci_memo n memo = Inr (v, m', e)"
    by (auto simp: fibonacciC_eq_memo split: sum.splits)
  from fibonacci_memo_consistent [OF this] c show ?thesis by simp
qed

lemma run_calls_consistent:
  "consistent memo \<Longrightarrow> run_calls cs memo = Inr m \<Longrightarrow> consistent m"
proof (induction cs arbitrary: memo)
  case Nil
  then show ?case by simp
next
  case (Cons c cs)
  from Cons.prems(2) obtain m1 where p: "perform c memo = Inr m1" and r: "run_calls cs m1 = Inr m"
    by (auto split: sum.splits)
  from perform_consistent [OF Cons.prems(1) p] have "consistent m1" .
  from Cons.IH [OF this r] show ?case .
qed

text \<open>A sequence of calls that returns used indices inside the capacity only.\<close>

lemma perform_valid_index:
  assumes "perform c memo = Inr m'"
  shows "1 \<le> call_index c \<and> call_index c \<le> int (length memo) \<and> length m' = length memo"
proof -
  from assms obtain v e where "fibonacci_memo (call_index c) memo = Inr (v, m', e)"
    by (cases c) (auto simp: fibonacciC_eq_memo split: sum.splits)
  from fibonacci_memo_frame [OF this] show ?thesis by (simp add: in_bounds_def)
qed

lemma run_calls_valid_indices:
  "run_calls cs memo = Inr m \<Longrightarrow>
   length m = length memo \<and> (\<forall>c\<in>set cs. 1 \<le> call_index c \<and> call_index c \<le> int (length memo))"
proof (induction cs arbitrary: memo)
  case Nil
  then show ?case by simp
next
  case (Cons c cs)
  from Cons.prems obtain m1 where p: "perform c memo = Inr m1" and r: "run_calls cs m1 = Inr m"
    by (auto split: sum.splits)
  from perform_valid_index [OF p] Cons.IH [OF r] show ?case by simp
qed

text \<open>
  A sequence of calls whose indices lie inside the capacity and do not exceed 46 returns,
  and keeps the invariant and the capacity.
\<close>

lemma perform_returns:
  assumes "consistent memo" and "1 \<le> call_index c" and "call_index c \<le> 46"
    and "call_index c \<le> int (length memo)"
  shows "\<exists>m'. perform c memo = Inr m' \<and> consistent m' \<and> length m' = length memo"
proof -
  from fibonacci_memo_returns [OF assms] obtain m' e where
    r: "fibonacci_memo (call_index c) memo = Inr (fib_spec (nat (call_index c)), m', e)"
    by blast
  from fibonacci_memo_consistent [OF r] assms(1) have "consistent m'" by simp
  moreover from fibonacci_memo_frame [OF r] have "length m' = length memo" by simp
  moreover from r have "perform c memo = Inr m'"
    by (cases c) (simp_all add: fibonacciC_eq_memo)
  ultimately show ?thesis by blast
qed

lemma run_calls_returns:
  "consistent memo \<Longrightarrow>
   \<forall>c\<in>set cs. 1 \<le> call_index c \<and> call_index c \<le> 46 \<and> call_index c \<le> int (length memo) \<Longrightarrow>
   \<exists>m. run_calls cs memo = Inr m \<and> consistent m \<and> length m = length memo"
proof (induction cs arbitrary: memo)
  case Nil
  then show ?case by simp
next
  case (Cons c cs)
  from Cons.prems have "1 \<le> call_index c" "call_index c \<le> 46"
    "call_index c \<le> int (length memo)" by simp_all
  from perform_returns [OF Cons.prems(1) this] obtain m1 where
    p: "perform c memo = Inr m1" and c1: "consistent m1" and l1: "length m1 = length memo"
    by blast
  from Cons.prems(2) l1 have
    "\<forall>c\<in>set cs. 1 \<le> call_index c \<and> call_index c \<le> 46 \<and> call_index c \<le> int (length m1)"
    by simp
  from Cons.IH [OF c1 this] p l1 show ?case by simp
qed

section \<open>The cache after a call on a fresh cache\<close>

text \<open>
  The recurrence for \<open>n \<ge> 3\<close> involves every index from 1 to \<open>n\<close>; for \<open>n \<le> 2\<close> it involves
  \<open>n\<close> alone.
\<close>

lemma recurrence_chain_bounds:
  "1 \<le> n \<Longrightarrow> k \<in> recurrence_chain n \<Longrightarrow> 1 \<le> k \<and> k \<le> n"
proof (induction n arbitrary: k rule: recurrence_chain.induct)
  case (1 n)
  show ?case
  proof (cases "n \<le> 2")
    case True
    with "1.prems" show ?thesis by (simp add: recurrence_chain.simps [of n])
  next
    case False
    with "1.prems"(2) have "k = n \<or> k \<in> recurrence_chain (n - 1) \<or> k \<in> recurrence_chain (n - 2)"
      by (simp add: recurrence_chain.simps [of n])
    with "1.IH" [OF False, of k] False "1.prems"(1) show ?thesis by auto
  qed
qed

lemma recurrence_chain_full: "3 \<le> n \<Longrightarrow> recurrence_chain n = {1..n}"
proof (induction "nat n" arbitrary: n rule: less_induct)
  case less
  have two: "recurrence_chain 2 = {2}" and one: "recurrence_chain 1 = {1}"
    by (simp_all add: recurrence_chain.simps [of 2] recurrence_chain.simps [of 1])
  from less.prems have unf: "recurrence_chain n =
    insert n (recurrence_chain (n - 1) \<union> recurrence_chain (n - 2))"
    by (simp add: recurrence_chain.simps [of n])
  have below: "recurrence_chain m = {1..m}" if "3 \<le> m" "m < n" for m
  proof -
    from that have "nat m < nat n" by arith
    from less.hyps [OF this that(1)] show ?thesis .
  qed
  consider "n = 3" | "n = 4" | "5 \<le> n" using less.prems by arith
  then show ?case
  proof cases
    case 1
    have "insert 3 ({2} \<union> {1}) = {1..3::int}" by auto
    with unf two one 1 show ?thesis by simp
  next
    case 2
    have "recurrence_chain 3 = {1..3}" using below [of 3] 2 by simp
    moreover have "insert 4 ({1..3} \<union> {2}) = {1..4::int}" by auto
    ultimately show ?thesis using unf two 2 by simp
  next
    case 3
    then have "recurrence_chain (n - 1) = {1..n - 1}" "recurrence_chain (n - 2) = {1..n - 2}"
      using below [of "n - 1"] below [of "n - 2"] by simp_all
    moreover have "insert n ({1..n - 1} \<union> {1..n - 2}) = {1..n}" using 3 by auto
    ultimately show ?thesis using unf by simp
  qed
qed

lemma fibonacci_memo_warm:
  assumes r: "fibonacci_memo n memo = Inr (v, m', e)"
    and c: "consistent memo" and d: "dep_closed memo" and n3: "3 \<le> n" and i: "i < nat n"
  shows "m' ! i = fib_spec (Suc i)"
proof -
  note f = fibonacci_memo_frame [OF r]
  from fibonacci_memo_consistent [OF r] c have c': "consistent m'" by simp
  from fibonacci_memo_dep_closed [OF r] d have d': "dep_closed m'" by simp
  from f have k: "nat (n - 1) < length m'" by (auto simp: in_bounds_def)
  from n3 i have "2 \<le> nat (n - 1)" "i \<le> nat (n - 1)" by arith+
  from dep_closed_below [OF d' this(1) k _ this(2)] f have p: "0 < m' ! i" by simp
  from i k n3 have "i < length m'" by arith
  with c' p show ?thesis by (auto simp: consistent_def)
qed

text \<open>
  On a fresh cache the call returns exactly for the indices whose Fibonacci number an
  \<open>int\<close> holds. A call with \<open>n = 2\<close> stores slot 1 only: slot 0 is not part of the
  recurrence for 2 and keeps the sentinel.
\<close>

lemma fibonacci_memo_fresh_returns:
  assumes "1 \<le> n" and "n \<le> 46" and "n \<le> int N"
  shows "\<exists>m' e. fibonacci_memo n (fresh N) = Inr (fib_spec (nat n), m', e)"
proof -
  from assms(3) have "n \<le> int (length (fresh N))" by (simp add: fresh_def)
  from fibonacci_memo_returns [OF consistent_fresh assms(1,2) this] show ?thesis .
qed

lemma fibonacci_memo_fresh_overflows:
  assumes "47 \<le> n" and "n \<le> int N"
  shows "fibonacci_memo n (fresh N) = Inl SignedOverflow"
proof -
  from assms(2) have "n \<le> int (length (fresh N))" by (simp add: fresh_def)
  from fibonacci_memo_overflows [OF consistent_fresh within_int_fresh assms(1) this]
  show ?thesis .
qed

lemma fibonacci_memo_fresh_at_2:
  assumes "2 \<le> N"
  shows "fibonacci_memo 2 (fresh N) = Inr (1, (fresh N)[1 := 1], BaseCase)"
    and "(fresh N)[1 := 1] ! 0 = 0"
proof -
  from assms have ib: "in_bounds (2 - 1) (fresh N)" by (simp add: in_bounds_def fresh_def)
  from assms have z: "fresh N ! nat (2 - 1) \<le> 0" by (simp add: fresh_def)
  have g: "base_case_guard 2" by (simp add: base_case_guard_def)
  from fibonacci_memo_baseI [OF ib z g]
  show "fibonacci_memo 2 (fresh N) = Inr (1, (fresh N)[1 := 1], BaseCase)" by simp
  from assms show "(fresh N)[1 := 1] ! 0 = 0" by (simp add: fresh_def)
qed

section \<open>Repeated calls\<close>

text \<open>
  A call that returned leaves its own slot positive, so the same call on the cache it
  left is a cache hit with the same value and changes nothing.
\<close>

lemma populated_upto_hit:
  assumes "1 \<le> n" and "populated_upto n memo"
  shows "in_bounds (n - 1) memo" and "0 < memo ! nat (n - 1)"
proof -
  from assms show ib: "in_bounds (n - 1) memo"
    by (simp add: populated_upto_def in_bounds_def)
  from assms have k: "nat (n - 1) < length (take (nat n) memo)"
    by (simp add: populated_upto_def) arith
  with assms(2) have "0 < take (nat n) memo ! nat (n - 1)"
    by (simp add: populated_upto_def list_all_length)
  with k show "0 < memo ! nat (n - 1)" by simp
qed

lemma fibonacci_memo_idempotent:
  assumes "fibonacci_memo n memo = Inr (v, m', e)"
  shows "fibonacci_memo n m' = Inr (v, m', CacheHit)"
proof -
  note f = fibonacci_memo_frame [OF assms]
  then have "in_bounds (n - 1) m'" "0 < m' ! nat (n - 1)" by (simp_all add: in_bounds_def)
  from fibonacci_memo_hitI [OF this] f show ?thesis by simp
qed

lemma nonzero_slots_kept_without_negatives:
  assumes "fibonacci_memo n memo = Inr (v, m', e)" and "list_all (\<lambda>x. 0 \<le> x) memo"
    and "i < length memo" and "memo ! i \<noteq> 0"
  shows "m' ! i = memo ! i"
proof -
  from assms(2,3) have "0 \<le> memo ! i" by (simp add: list_all_length)
  with assms(4) have "0 < memo ! i" by simp
  with fibonacci_memo_frame [OF assms(1)] assms(3) show ?thesis by simp
qed

section \<open>The output of the driver\<close>

lemma fib_spec_42: "fib_spec 42 = 267914296"
proof -
  have "fib_pair 42 = (267914296, 433494437)" by code_simp
  then show ?thesis by (simp add: fib_pair_spec)
qed

lemma show_int_values:
  "show_int 42 = ''42''" "show_int 267914296 = ''267914296''"
  "show_int 0 = ''0''" "show_int 1532871 = ''1532871''" "show_int 3 = ''3''"
  by (simp_all add: show_int_def show_nat.simps digit_char_def)

text \<open>
  The three calls of the driver return the 42nd Fibonacci number; the third one finds it
  in the cache the second one filled.
\<close>

lemma driver_results:
  "fibonacci fibN = Inr (267914296, Recursive)"
  "\<exists>memoA. fibonacci_memo fibN (fresh (nat fibN)) = Inr (267914296, memoA, Recursive) \<and>
     fibonacciC fibN memoA = Inr (267914296, memoA, CacheHit)"
proof -
  show "fibonacci fibN = Inr (267914296, Recursive)"
    by (simp add: fibonacci_closed fibN_def fib_spec_42)
  from fibonacci_memo_fresh_returns [of 42 42] obtain memoA e where
    r: "fibonacci_memo 42 (fresh 42) = Inr (267914296, memoA, e)"
    by (auto simp: fib_spec_42)
  have "e = Recursive"
    using r by (cases rule: fibonacci_memo_cases) (simp_all add: fresh_def base_case_guard_def)
  with r fibonacci_memo_idempotent [OF r]
  show "\<exists>memoA. fibonacci_memo fibN (fresh (nat fibN)) = Inr (267914296, memoA, Recursive) \<and>
     fibonacciC fibN memoA = Inr (267914296, memoA, CacheHit)"
    by (auto simp: fibN_def fibonacciC_eq_memo)
qed

lemma main_output:
  "main durationClassic durationArray durationArrayConstexpr =
     Inr (''fibonacci(42) = 267914296'' @ endl @
          ''time = '' @ show_int durationClassic @ '' us'' @ endl @ endl @
          ''fibonacci<array>(42) = 267914296'' @ endl @
          ''time = '' @ show_int durationArray @ '' us'' @ endl @ endl @
          ''fibonacci<array, constexpr>(42) = 267914296'' @ endl @
          ''time = '' @ show_int durationArrayConstexpr @ '' us'' @ endl @ endl)"
proof -
  from driver_results(2) obtain memoA where
    r3: "fibonacci_memo fibN (fresh (nat fibN)) = Inr (267914296, memoA, Recursive)" and
    r4: "fibonacciC fibN memoA = Inr (267914296, memoA, CacheHit)" by blast
  have s: "show_int fibN = ''42''" by (simp add: fibN_def show_int_values)
  show ?thesis
    unfolding main_def by (simp add: driver_results(1) r3 r4 s show_int_values)
qed

text \<open>
  The format of the specification accepts a text in which each block starts with a line
  \<open>fibonacci(42) = 267914296\<close>; the lines the driver writes for the clock differences
  1532871, 3 and 0 are these.
\<close>

lemma spec_output_form_accepts:
  "spec_output_form
     (''fibonacci(42) = 267914296'' @ endl @ ''time = 1532871 us'' @ endl @ endl @
      ''fibonacci(42) = 267914296'' @ endl @ ''time = 3 us'' @ endl @ endl @
      ''fibonacci(42) = 267914296'' @ endl @ ''time = 0 us'' @ endl @ endl)"
  by code_simp

lemma main_output_lines:
  "\<exists>out. main 1532871 3 0 = Inr out \<and>
     split_lines out =
       [''fibonacci(42) = 267914296'', ''time = 1532871 us'', '''',
        ''fibonacci<array>(42) = 267914296'', ''time = 3 us'', '''',
        ''fibonacci<array, constexpr>(42) = 267914296'', ''time = 0 us'', '''']"
  by (simp add: main_output show_int_values endl_def split_lines_def)

section \<open>The claims\<close>

text \<open>
  Claim C10, as stated, fails in its last part: the naive variant is not total on all
  integer inputs. For \<open>n = 47\<close> the addition of line 21 leaves the range of \<open>int\<close>, so the
  call has no defined result.
\<close>

theorem naive_overflows_at_47: "fibonacci 47 = Inl SignedOverflow"
  by (simp add: fibonacci_closed)

text \<open>
  Claim C10, amended. For every integer \<open>n \<le> 2\<close>, zero and the negative ones included, the
  naive variant returns 1 through its base case (line 18): it reaches neither the
  recursive calls of line 21 nor, having no array, any array access. It returns a value
  for every integer \<open>n \<le> 46\<close> and overflows from 47 on; the memoized variants fault on every
  \<open>n \<le> 0\<close>, on any cache.
\<close>

theorem naive_base_case:
  "(n \<le> 2 \<longrightarrow> fibonacci n = Inr (1, BaseCase)) \<and>
   (n \<le> 46 \<longrightarrow> (\<exists>v e. fibonacci n = Inr (v, e))) \<and>
   (47 \<le> n \<longrightarrow> fibonacci n = Inl SignedOverflow) \<and>
   (n \<le> 0 \<longrightarrow> fibonacci_memo n memo = Inl OutOfBounds \<and> fibonacciC n memo = Inl OutOfBounds)"
proof -
  have "\<not> in_bounds (n - 1) memo" if "n \<le> 0"
    using that by (simp add: in_bounds_def)
  then show ?thesis
    by (simp add: fibonacci_closed fibonacci_memo_out_of_bounds fibonacciC_out_of_bounds)
qed

theorem naive_base_case_witness:
  "fibonacci (- 7) = Inr (1, BaseCase) \<and> fibonacci 0 = Inr (1, BaseCase) \<and>
   fibonacci 2 = Inr (1, BaseCase) \<and> (\<exists>v e. fibonacci 46 = Inr (v, e)) \<and>
   fibonacci_memo (- 7) [0, 0] = Inl OutOfBounds \<and> fibonacciC 0 [0, 0] = Inl OutOfBounds"
  using naive_base_case [of "- 7" "[0, 0]"] naive_base_case [of 0 "[0, 0]"]
    naive_base_case [of 2 "[]"] naive_base_case [of 46 "[]"]
  by simp




text \<open>
  Claim C8. For \<open>n = 1\<close> and \<open>n = 2\<close> no variant reaches its recursive branch. The naive
  variant returns 1 from its base case. On any cache each memoized variant returns the
  stored value through the cache hit when slot \<open>n - 1\<close> is positive, and otherwise stores
  and returns 1 through its base case; the cache is otherwise untouched, as no inner call
  was made. (A cache with fewer than \<open>n\<close> slots faults at the first read.)
\<close>

theorem no_recursion_at_1_and_2:
  "n = 1 \<or> n = 2 \<Longrightarrow>
   fibonacci n = Inr (1, BaseCase) \<and>
   fibonacci_memo n memo =
     (if \<not> in_bounds (n - 1) memo then Inl OutOfBounds
      else if 0 < memo ! nat (n - 1) then Inr (memo ! nat (n - 1), memo, CacheHit)
      else Inr (1, memo[nat (n - 1) := 1], BaseCase)) \<and>
   fibonacciC n memo =
     (if \<not> in_bounds (n - 1) memo then Inl OutOfBounds
      else if 0 < memo ! nat (n - 1) then Inr (memo ! nat (n - 1), memo, CacheHit)
      else Inr (1, memo[nat (n - 1) := 1], BaseCase))"
proof -
  assume n: "n = 1 \<or> n = 2"
  then have g: "base_case_guard n" by (auto simp: base_case_guard_def)
  from n have "fibonacci n = Inr (1, BaseCase)" by (auto simp: fibonacci.simps [of n])
  moreover have "fibonacci_memo n memo =
     (if \<not> in_bounds (n - 1) memo then Inl OutOfBounds
      else if 0 < memo ! nat (n - 1) then Inr (memo ! nat (n - 1), memo, CacheHit)
      else Inr (1, memo[nat (n - 1) := 1], BaseCase))"
    using g by (simp add: fibonacci_memo_out_of_bounds fibonacci_memo_hitI fibonacci_memo_baseI)
  ultimately show ?thesis by (simp add: fibonacciC_eq_memo)
qed

theorem no_recursion_at_1_and_2_witness:
  "fibonacci 2 = Inr (1, BaseCase) \<and>
   fibonacci_memo 2 [0, 0, 0] = Inr (1, [0, 1, 0], BaseCase) \<and>
   fibonacciC 2 [0, 7, 0] = Inr (7, [0, 7, 0], CacheHit)"
  using no_recursion_at_1_and_2 [of 2 "[0, 0, 0]"] no_recursion_at_1_and_2 [of 2 "[0, 7, 0]"]
  by (simp add: in_bounds_def)

text \<open>
  Claim C1. For every \<open>n\<close> with \<open>1 \<le> n \<le> 30\<close>, the naive variant, the memoized variant on
  a fresh all-zero cache of capacity at least \<open>n\<close> and the constexpr variant on a fresh
  all-zero cache of capacity at least \<open>n\<close> return the same value: each returns the
  \<open>n\<close>th Fibonacci number.
\<close>

theorem variants_agree:
  "1 \<le> n \<Longrightarrow> n \<le> 30 \<Longrightarrow> n \<le> int N \<Longrightarrow> n \<le> int M \<Longrightarrow>
   returned (fibonacci n) = Inr (fib_spec (nat n)) \<and>
   returned (fibonacci_memo n (fresh N)) = Inr (fib_spec (nat n)) \<and>
   returned (fibonacciC n (fresh M)) = Inr (fib_spec (nat n))"
  by (simp add: naive_value memo_fresh_value fibonacciC_eq_memo)

theorem variants_agree_witness:
  "returned (fibonacci 30) = Inr 832040 \<and>
   returned (fibonacci_memo 30 (fresh 30)) = Inr 832040 \<and>
   returned (fibonacciC 30 (fresh 42)) = Inr 832040"
  using variants_agree [of 30 30 42] by (simp add: fib_spec_30)

text \<open>
  Claim C7. Each of the three variants, the memoized ones on a fresh cache of any
  sufficient capacity \<open>N\<close>, returns 1, 1, 2, 55 and 6765 for \<open>n\<close> = 1, 2, 3, 10 and 20.
\<close>

theorem known_values:
  "returned (fibonacci 1) = Inr 1 \<and> returned (fibonacci 2) = Inr 1 \<and>
   returned (fibonacci 3) = Inr 2 \<and> returned (fibonacci 10) = Inr 55 \<and>
   returned (fibonacci 20) = Inr 6765 \<and>
   (1 \<le> N \<longrightarrow> returned (fibonacci_memo 1 (fresh N)) = Inr 1 \<and>
              returned (fibonacciC 1 (fresh N)) = Inr 1) \<and>
   (2 \<le> N \<longrightarrow> returned (fibonacci_memo 2 (fresh N)) = Inr 1 \<and>
              returned (fibonacciC 2 (fresh N)) = Inr 1) \<and>
   (3 \<le> N \<longrightarrow> returned (fibonacci_memo 3 (fresh N)) = Inr 2 \<and>
              returned (fibonacciC 3 (fresh N)) = Inr 2) \<and>
   (10 \<le> N \<longrightarrow> returned (fibonacci_memo 10 (fresh N)) = Inr 55 \<and>
               returned (fibonacciC 10 (fresh N)) = Inr 55) \<and>
   (20 \<le> N \<longrightarrow> returned (fibonacci_memo 20 (fresh N)) = Inr 6765 \<and>
               returned (fibonacciC 20 (fresh N)) = Inr 6765)"
  using naive_value [of 1] naive_value [of 2] naive_value [of 3] naive_value [of 10]
    naive_value [of 20] memo_fresh_value [of 1 N] memo_fresh_value [of 2 N]
    memo_fresh_value [of 3 N] memo_fresh_value [of 10 N] memo_fresh_value [of 20 N]
  by (simp add: fib_spec_known fibonacciC_eq_memo)

theorem known_values_witness:
  "returned (fibonacci_memo 1 (fresh 20)) = Inr 1 \<and>
   returned (fibonacciC 2 (fresh 20)) = Inr 1 \<and>
   returned (fibonacci_memo 3 (fresh 20)) = Inr 2 \<and>
   returned (fibonacciC 10 (fresh 20)) = Inr 55 \<and>
   returned (fibonacci_memo 20 (fresh 20)) = Inr 6765 \<and>
   returned (fibonacciC 20 (fresh 20)) = Inr 6765"
  using known_values [of 20] by simp

text \<open>
  Claim C2, as stated, fails. An index can be valid, \<open>1 \<le> n \<le> N\<close>, and yet exceed 46: the
  single call with \<open>n = 47\<close> on the all-zero cache of capacity 47 overflows in the addition
  of line 44 and leaves no cache that satisfies the invariant. No \<open>int\<close> holds the 47th
  Fibonacci number, so slot 46 cannot hold it whatever the addition leaves there.
\<close>

theorem overflow_leaves_no_consistent_cache:
  "(1::int) \<le> call_index (MemoFib 47) \<and> call_index (MemoFib 47) \<le> int 47 \<and>
   run_calls [MemoFib 47] (fresh 47) = Inl SignedOverflow \<and>
   INT_MAX < fib_spec 47 \<and>
   \<not> leaves_consistent_cache [MemoFib 47] 47"
proof -
  have "fibonacci_memo 47 (fresh 47) = Inl SignedOverflow"
    by (rule fibonacci_memo_fresh_overflows) simp_all
  then have "run_calls [MemoFib 47] (fresh 47) = Inl SignedOverflow" by simp
  moreover have "INT_MAX < fib_spec 47" by (rule fib_spec_exceeds) simp
  ultimately show ?thesis by (simp add: leaves_consistent_cache_def)
qed

text \<open>
  Claim C2, amended. Start from the all-zero cache of capacity \<open>N\<close> and make any sequence
  of memoized calls, of either variant, each with an index \<open>1 \<le> n \<le> N\<close> and \<open>n \<le> 46\<close>, each
  on the cache the previous one left. The sequence returns, the cache keeps its capacity,
  and every non-zero slot \<open>i\<close> of it holds the Fibonacci number of index \<open>i + 1\<close>.
\<close>

theorem reachable_cache_invariant:
  assumes "\<forall>c\<in>set cs. 1 \<le> call_index c \<and> call_index c \<le> int N \<and> call_index c \<le> 46"
  shows "\<exists>m. run_calls cs (fresh N) = Inr m \<and> length m = N \<and>
    (\<forall>i<N. m ! i \<noteq> 0 \<longrightarrow> m ! i = fib_spec (Suc i)) \<and>
    leaves_consistent_cache cs N"
proof -
  from assms have
    "\<forall>c\<in>set cs. 1 \<le> call_index c \<and> call_index c \<le> 46 \<and> call_index c \<le> int (length (fresh N))"
    by (simp add: fresh_def)
  from run_calls_returns [OF consistent_fresh this] obtain m where
    r: "run_calls cs (fresh N) = Inr m" and c: "consistent m" and l: "length m = N"
    by (auto simp: fresh_def)
  from c l have "\<forall>i<N. m ! i \<noteq> 0 \<longrightarrow> m ! i = fib_spec (Suc i)"
    by (auto simp: consistent_def)
  with r c l show ?thesis by (simp add: leaves_consistent_cache_def)
qed

theorem reachable_cache_invariant_witness:
  "run_calls [MemoFib 5, ConstFib 7, MemoFib 3] (fresh 8) = Inr [1, 1, 2, 3, 5, 8, 13, 0] \<and>
   [1, 1, 2, 3, 5, 8, 13, 0 :: int] ! 6 = fib_spec (Suc 6) \<and>
   leaves_consistent_cache [MemoFib 5, ConstFib 7, MemoFib 3] 8"
proof -
  have r: "run_calls [MemoFib 5, ConstFib 7, MemoFib 3] (fresh 8) = Inr [1, 1, 2, 3, 5, 8, 13, 0]"
    by code_simp
  have "\<forall>c\<in>set [MemoFib 5, ConstFib 7, MemoFib 3].
    1 \<le> call_index c \<and> call_index c \<le> int 8 \<and> call_index c \<le> 46" by simp
  from reachable_cache_invariant [OF this] r
  have "(\<forall>i<8. [1, 1, 2, 3, 5, 8, 13, 0 :: int] ! i \<noteq> 0 \<longrightarrow>
           [1, 1, 2, 3, 5, 8, 13, 0 :: int] ! i = fib_spec (Suc i))"
    and "leaves_consistent_cache [MemoFib 5, ConstFib 7, MemoFib 3] 8" by auto
  from this(1) [rule_format, of 6] this(2) r show ?thesis by simp
qed

text \<open>
  Claim C4, as stated, fails twice. For \<open>n = 47\<close> on the all-zero cache of capacity 47 the
  call overflows in the addition of line 44, and no \<open>int\<close> slot can hold the 47th Fibonacci
  number. For \<open>n = 2\<close> the call returns through the base case and fills slot 1 only: slot 0
  keeps the sentinel, so the cache is not warmed up to 2.
\<close>

theorem cache_not_warmed_at_47_and_2:
  "(1::int) \<le> 47 \<and> (47::int) \<le> int 47 \<and>
   fibonacci_memo 47 (fresh 47) = Inl SignedOverflow \<and> INT_MAX < fib_spec 47 \<and>
   fibonacci_memo 2 (fresh 2) = Inr (1, [0, 1], BaseCase) \<and> [0, 1 :: int] ! 0 \<noteq> fib_spec 1"
proof -
  have "fibonacci_memo 47 (fresh 47) = Inl SignedOverflow"
    by (rule fibonacci_memo_fresh_overflows) simp_all
  moreover have "INT_MAX < fib_spec 47" by (rule fib_spec_exceeds) simp
  moreover have "fibonacci_memo 2 (fresh 2) = Inr (1, [0, 1], BaseCase)"
    using fibonacci_memo_fresh_at_2 (1) [of 2] by (simp add: fresh_def numeral_2_eq_2)
  ultimately show ?thesis by simp
qed

text \<open>
  Claim C4, amended. Let \<open>1 \<le> n \<le> N\<close> and \<open>n \<le> 46\<close>. The memoized variant returns the \<open>n\<close>th
  Fibonacci number on the all-zero cache of capacity \<open>N\<close>, and afterwards every index \<open>k\<close> of
  the recurrence chain of \<open>n\<close> lies in \<open>1..n\<close> and its slot \<open>k - 1\<close> holds the \<open>k\<close>th Fibonacci
  number. For \<open>n \<ge> 3\<close> every slot below \<open>n\<close> is filled with its Fibonacci number; for
  \<open>n \<le> 2\<close> slot \<open>n - 1\<close> alone is filled. The slots from \<open>n\<close> on keep the sentinel.
\<close>

theorem cache_warmed_up:
  assumes "1 \<le> n" and "n \<le> int N" and "n \<le> 46"
  shows "\<exists>m' e. fibonacci_memo n (fresh N) = Inr (fib_spec (nat n), m', e) \<and>
    length m' = N \<and>
    (\<forall>k\<in>recurrence_chain n. 1 \<le> k \<and> k \<le> n \<and> m' ! nat (k - 1) = fib_spec (nat k)) \<and>
    (3 \<le> n \<longrightarrow> (\<forall>i<nat n. m' ! i = fib_spec (Suc i))) \<and>
    (n \<le> 2 \<longrightarrow> m' = (fresh N)[nat (n - 1) := 1]) \<and>
    (\<forall>i<N. nat n \<le> i \<longrightarrow> m' ! i = 0)"
proof -
  from fibonacci_memo_fresh_returns [OF assms(1,3,2)] obtain m' e where
    r: "fibonacci_memo n (fresh N) = Inr (fib_spec (nat n), m', e)" by blast
  note f = fibonacci_memo_frame [OF r]
  then have l: "length m' = N" by (simp add: fresh_def)
  have chain: "1 \<le> k \<and> k \<le> n \<and> m' ! nat (k - 1) = fib_spec (nat k)"
    if k: "k \<in> recurrence_chain n" for k
  proof -
    from recurrence_chain_bounds [OF assms(1) k] have b: "1 \<le> k" "k \<le> n" by simp_all
    show ?thesis
    proof (cases "n \<le> 2")
      case True
      with k have "k = n" by (simp add: recurrence_chain.simps [of n])
      with f b show ?thesis by simp
    next
      case False
      with b have "3 \<le> n" "nat (k - 1) < nat n" "Suc (nat (k - 1)) = nat k" by arith+
      with fibonacci_memo_warm [OF r consistent_fresh dep_closed_fresh, of "nat (k - 1)"] b
      show ?thesis by simp
    qed
  qed
  have full: "m' ! i = fib_spec (Suc i)" if "3 \<le> n" "i < nat n" for i
    using fibonacci_memo_warm [OF r consistent_fresh dep_closed_fresh that] .
  have small: "m' = (fresh N)[nat (n - 1) := 1]" if "n \<le> 2"
  proof -
    from assms that have ib: "in_bounds (n - 1) (fresh N)"
      and z: "fresh N ! nat (n - 1) \<le> 0" and g: "base_case_guard n"
      by (simp_all add: in_bounds_def fresh_def base_case_guard_def)
    from fibonacci_memo_baseI [OF ib z g] r show ?thesis by simp
  qed
  have above: "m' ! i = 0" if "i < N" "nat n \<le> i" for i
    using fibonacci_memo_above [OF r] that by (simp add: fresh_def)
  from r l chain full small above show ?thesis by blast
qed

theorem cache_warmed_up_witness:
  "fibonacci_memo 6 (fresh 8) = Inr (8, [1, 1, 2, 3, 5, 8, 0, 0], Recursive) \<and>
   4 \<in> recurrence_chain 6 \<and>
   [1, 1, 2, 3, 5, 8, 0, 0 :: int] ! nat (4 - 1) = fib_spec (nat 4) \<and>
   [1, 1, 2, 3, 5, 8, 0, 0 :: int] ! 5 = fib_spec (Suc 5)"
proof -
  have r: "fibonacci_memo 6 (fresh 8) = Inr (8, [1, 1, 2, 3, 5, 8, 0, 0], Recursive)"
    by code_simp
  have ch: "4 \<in> recurrence_chain 6"
    by (simp add: recurrence_chain_full)
  have n: "(1::int) \<le> 6" "(6::int) \<le> int 8" "(6::int) \<le> 46" by simp_all
  from cache_warmed_up [OF n] r have
    "(\<forall>k\<in>recurrence_chain 6. 1 \<le> k \<and> k \<le> 6 \<and>
        [1, 1, 2, 3, 5, 8, 0, 0 :: int] ! nat (k - 1) = fib_spec (nat k))"
    and "(\<forall>i<nat 6. [1, 1, 2, 3, 5, 8, 0, 0 :: int] ! i = fib_spec (Suc i))"
    by auto
  from this(1) [rule_format, OF ch] this(2) [rule_format, of 5] r ch show ?thesis by simp
qed

text \<open>
  Claim C5. Let \<open>1 \<le> n \<le> N\<close> and let the cache be populated up to \<open>n\<close>. Then the memoized
  variant called twice in succession returns the same value both times, both times
  through the cache hit, and the cache after each call is the cache before it: no slot,
  filled or not, is altered.
\<close>

theorem memo_idempotent_on_populated:
  assumes "1 \<le> n" and "n \<le> int (length memo)" and "populated_upto n memo"
  shows "\<exists>v m1. fibonacci_memo n memo = Inr (v, m1, CacheHit) \<and>
    fibonacci_memo n m1 = Inr (v, m1, CacheHit) \<and> m1 = memo"
  using fibonacci_memo_hitI [OF populated_upto_hit [OF assms(1,3)]] by simp

theorem memo_idempotent_on_populated_witness:
  "populated_upto 3 [1, 1, 2, 0] \<and>
   (\<exists>v m1. fibonacci_memo 3 [1, 1, 2, 0] = Inr (v, m1, CacheHit) \<and>
     fibonacci_memo 3 m1 = Inr (v, m1, CacheHit) \<and> m1 = [1, 1, 2, 0])"
proof -
  have p: "populated_upto 3 [1, 1, 2, 0]" by (simp add: populated_upto_def)
  from memo_idempotent_on_populated [OF _ _ p] p show ?thesis by simp
qed

text \<open>
  Claim C6, as stated, fails. It calls a slot filled when it is non-zero; the code calls
  it filled when it is positive (\<open>memo[n - 1] > 0\<close>, lines 33 and 58). A slot that holds a
  negative value is non-zero and yet overwritten: on the one-slot cache \<open>{-5}\<close> the call
  with \<open>n = 1\<close> misses, takes the base case and stores 1.
\<close>

theorem negative_slot_overwritten:
  "(1::int) \<le> 1 \<and> (1::int) \<le> int (length [- 5 :: int]) \<and>
   fibonacci_memo 1 [- 5] = Inr (1, [1], BaseCase) \<and>
   [- 5 :: int] ! 0 \<noteq> 0 \<and> [1 :: int] ! 0 \<noteq> [- 5] ! 0"
  by (simp add: fibonacci_memo.simps [of 1] load_def store_def in_bounds_def base_case_guard_def)

text \<open>
  Claim C6, amended. For every call of either memoized variant that returns, every slot
  that holds a positive value before the call holds the same value after it, and the
  cache keeps its capacity. (On a cache without negative values, such as every cache the
  program itself produces, the positive slots are the non-zero ones.)
\<close>

theorem positive_slots_kept:
  assumes "fibonacci_memo n memo = Inr (v, m', e) \<or> fibonacciC n memo = Inr (v, m', e)"
    and "i < length memo" and "0 < memo ! i"
  shows "m' ! i = memo ! i \<and> length m' = length memo"
proof -
  from assms(1) have "fibonacci_memo n memo = Inr (v, m', e)" by (simp add: fibonacciC_eq_memo)
  from fibonacci_memo_frame [OF this] assms(2,3) show ?thesis by simp
qed

theorem positive_slots_kept_witness:
  "fibonacciC 4 [1, 0, 0, 0, 9] = Inr (3, [1, 1, 2, 3, 9], Recursive) \<and>
   [1, 1, 2, 3, 9 :: int] ! 4 = [1, 0, 0, 0, 9] ! 4 \<and>
   [1, 1, 2, 3, 9 :: int] ! 0 = [1, 0, 0, 0, 9] ! 0"
proof -
  have r: "fibonacciC 4 [1, 0, 0, 0, 9] = Inr (3, [1, 1, 2, 3, 9], Recursive)" by code_simp
  from positive_slots_kept [OF disjI2 [OF r], of 4] positive_slots_kept [OF disjI2 [OF r], of 0] r
  show ?thesis by simp
qed

text \<open>
  Claim C9, as stated, fails. Only the first block starts with a line of the form
  \<open>fibonacci(<n>) = <value>\<close>: the second and third start with
  \<open>fibonacci<array>(42) = ...\<close> and \<open>fibonacci<array, constexpr>(42) = ...\<close> (lines 97 and
  100), so the output is not of the stated format, whatever the clock differences.
\<close>

theorem output_not_in_spec_form: "\<not> output_ok (main 1532871 3 0)"
proof -
  from main_output_lines obtain out where o: "main 1532871 3 0 = Inr out" and
    l: "split_lines out =
       [''fibonacci(42) = 267914296'', ''time = 1532871 us'', '''',
        ''fibonacci<array>(42) = 267914296'', ''time = 3 us'', '''',
        ''fibonacci<array, constexpr>(42) = 267914296'', ''time = 0 us'', '''']" by blast
  have "\<not> spec_result_form ''fibonacci<array>(42) = 267914296''"
    by (simp add: spec_result_form_def strip_prefix_def)
  with o l show ?thesis
    by (simp add: output_ok_def spec_output_form_def)
qed

text \<open>
  Claim C9, amended. For all clock differences the program writes six lines of text in
  three blocks, each block followed by a blank line: \<open>fibonacci(42) = 267914296\<close>,
  \<open>fibonacci<array>(42) = 267914296\<close> and \<open>fibonacci<array, constexpr>(42) = 267914296\<close>,
  each followed by a line \<open>time = <microseconds> us\<close>.
\<close>

theorem driver_output:
  "main durationClassic durationArray durationArrayConstexpr =
     Inr (''fibonacci(42) = 267914296'' @ endl @
          ''time = '' @ show_int durationClassic @ '' us'' @ endl @ endl @
          ''fibonacci<array>(42) = 267914296'' @ endl @
          ''time = '' @ show_int durationArray @ '' us'' @ endl @ endl @
          ''fibonacci<array, constexpr>(42) = 267914296'' @ endl @
          ''time = '' @ show_int durationArrayConstexpr @ '' us'' @ endl @ endl)"
  by (rule main_output)

theorem driver_output_witness:
  "main 1532871 3 0 =
     Inr (''fibonacci(42) = 267914296'' @ endl @ ''time = 1532871 us'' @ endl @ endl @
          ''fibonacci<array>(42) = 267914296'' @ endl @ ''time = 3 us'' @ endl @ endl @
          ''fibonacci<array, constexpr>(42) = 267914296'' @ endl @ ''time = 0 us'' @ endl @ endl)"
  using driver_output [of 1532871 3 0] by (simp add: show_int_values)

end
